theory Spec2Isabelle
  imports Main
begin

section \<open>The alarm program (new\_alarm\_cond.c)\<close>

text \<open>
  The program keeps three shared globals under one mutex: the linked list
  \<open>alarm_list\<close>, the scalar \<open>current_alarm\<close> and the flag array
  \<open>active_group_threads[MAX_GROUPS]\<close>.  The embedding passes them around as a record.
  Two further fields make the effects of the code visible: \<open>display_threads\<close> holds the
  \<open>group_id\<close> argument of every \<open>display_alarm_thread\<close> started by
  \<open>pthread_create\<close> (the body of that thread is \<open>while (1)\<close> with no \<open>break\<close>,
  \<open>return\<close> or \<open>pthread_exit\<close>, and nothing in the file cancels a thread, so a
  started thread lives until the process ends), and \<open>trace\<close> holds, in order, the lines
  written to stdout and stderr and the operations on \<open>alarm_cond\<close>.

  C \<open>int\<close> and \<open>time_t\<close> values are modelled as \<open>int\<close>: the code compares them
  and adds a period to a clock reading, nothing more.  The singly linked list is a HOL
  list; \<open>time(NULL)\<close> is an argument of the function that calls it.  Operations on the
  statically initialised mutex and condition variable are taken to succeed, except for
  the result of the waits of \<open>alarm_thread\<close>, which is an input.
\<close>

subsection \<open>Data\<close>

record alarm =
  seconds :: int
  time :: int
  message :: string
  alarm_id :: int
  groupId :: int

definition MAX_GROUPS :: nat where
  "MAX_GROUPS = 256"

datatype request =
    Start_Alarm int int int string
  | Change_Alarm int int int string
  | Cancel_Alarm int
  | Suspend_Alarm int
  | Reactivate_Alarm int
  | View_Alarms
  | Unrecognised
  | Empty_Line
  | End_Of_Input

datatype event =
    Msg_Invalid_Request
  | Msg_Request request
  | Msg_Alloc_Failed
  | Msg_Inserted alarm
  | Msg_Expired alarm
  | Msg_Printed alarm
  | Msg_Created int alarm
  | Msg_Assigned alarm
  | Msg_Create_Failed int
  | Msg_Removed nat
  | Msg_View nat "alarm list"
  | Cond_Signal
  | Cond_Broadcast

record state =
  alarm_list :: "alarm list"
  current_alarm :: int
  active_group_threads :: "int list"
  display_threads :: "int list"
  trace :: "event list"

definition init_state :: state where
  "init_state = \<lparr> alarm_list = [], current_alarm = 0,
     active_group_threads = replicate MAX_GROUPS 0,
     display_threads = [], trace = [] \<rparr>"

text \<open>
  How a run can stop: an array access outside \<open>0 .. MAX_GROUPS - 1\<close> (undefined
  behaviour in C), \<open>exit (n)\<close>, or \<open>abort ()\<close> through \<open>err_abort\<close> /
  \<open>errno_abort\<close>.  The last two carry the state at that moment.
\<close>

datatype fault =
    Out_Of_Bounds
  | Exit int state
  | Abort state

definition say :: "event \<Rightarrow> state \<Rightarrow> state" where
  "say e s = s\<lparr>trace := trace s @ [e]\<rparr>"

subsection \<open>insert\_alarm: the registration path, ordered by id\<close>

text \<open>
  Lines 76--81: \<open>current\<close> stays on a node, the loop looks at \<open>current->link\<close>.
  \<open>insert_after n rest\<close> is the list that replaces \<open>current->link\<close>.
\<close>

fun insert_after :: "alarm \<Rightarrow> alarm list \<Rightarrow> alarm list" where
  "insert_after n [] = [n]"
| "insert_after n (x # xs) =
     (if alarm_id x < alarm_id n then x # insert_after n xs else n # x # xs)"

definition insert_by_id :: "alarm \<Rightarrow> alarm list \<Rightarrow> alarm list" where
  "insert_by_id n xs =
     (case xs of
        [] \<Rightarrow> [n]
      | h # t \<Rightarrow> if alarm_id h > alarm_id n then n # h # t else h # insert_after n t)"

text \<open>
  \<open>insert_alarm ok now id groupId seconds message\<close>: \<open>ok\<close> says whether \<open>malloc\<close>
  returned a block, \<open>now\<close> is the value of \<open>time(NULL)\<close> on line 63.  The message is
  cut to 63 bytes by \<open>strncpy\<close>.
\<close>

definition insert_alarm :: "bool \<Rightarrow> int \<Rightarrow> int \<Rightarrow> int \<Rightarrow> int \<Rightarrow> string \<Rightarrow> state \<Rightarrow> state" where
  "insert_alarm ok now i g secs msg s =
     (if \<not> ok then say Msg_Alloc_Failed s
      else
        let new_alarm = \<lparr> seconds = secs, time = now + secs, message = take 63 msg,
                           alarm_id = i, groupId = g \<rparr>
        in say (Msg_Inserted new_alarm)
             (s\<lparr>alarm_list := insert_by_id new_alarm (alarm_list s)\<rparr>))"

subsection \<open>alarm\_insert: the requeue path, ordered by time\<close>

fun insert_by_time :: "alarm \<Rightarrow> alarm list \<Rightarrow> alarm list" where
  "insert_by_time a [] = [a]"
| "insert_by_time a (n # ns) =
     (if time n \<ge> time a then a # n # ns else n # insert_by_time a ns)"

definition alarm_insert :: "alarm \<Rightarrow> state \<Rightarrow> state" where
  "alarm_insert a s =
     (let s1 = s\<lparr>alarm_list := insert_by_time a (alarm_list s)\<rparr>
      in if current_alarm s1 = 0 \<or> time a < current_alarm s1
         then say Cond_Signal (s1\<lparr>current_alarm := time a\<rparr>)
         else s1)"

subsection \<open>alarm\_thread: the dispatcher\<close>

text \<open>
  The thread blocks at two places: \<open>pthread_cond_wait\<close> on line 177 and
  \<open>pthread_cond_timedwait\<close> on line 194, the latter holding the alarm it took off the
  list.  A step runs the thread from one blocking point to the next; the value returned
  by the wait it leaves is an input.
\<close>

datatype wait_status = Woken | Timed_Out | Wait_Error

datatype control = Loop_Top | Cond_Wait | Timed_Wait alarm

text \<open>Lines 181--210, entered with a non-empty list; \<open>now\<close> is \<open>time(NULL)\<close> on line 183.\<close>

definition take_alarm :: "int \<Rightarrow> state \<Rightarrow> control \<times> state" where
  "take_alarm now s =
     (case alarm_list s of
        [] \<Rightarrow> (Cond_Wait, s)
      | a # rest \<Rightarrow>
          let s1 = s\<lparr>alarm_list := rest\<rparr>
          in if time a > now then (Timed_Wait a, s1\<lparr>current_alarm := time a\<rparr>)
             else (Loop_Top, say (Msg_Expired a) s1))"

fun alarm_thread_step :: "control \<Rightarrow> wait_status \<Rightarrow> int \<Rightarrow> state \<Rightarrow> fault + control \<times> state" where
  "alarm_thread_step Loop_Top st now s =
     (let s1 = s\<lparr>current_alarm := 0\<rparr>
      in if alarm_list s1 = [] then Inr (Cond_Wait, s1) else Inr (take_alarm now s1))"
| "alarm_thread_step Cond_Wait st now s =
     (if st \<noteq> Woken then Inl (Abort s)
      else if alarm_list s = [] then Inr (Cond_Wait, s) else Inr (take_alarm now s))"
| "alarm_thread_step (Timed_Wait a) st now s =
     (case st of
        Timed_Out \<Rightarrow> Inr (Loop_Top, say (Msg_Expired a) s)
      | Wait_Error \<Rightarrow> Inl (Abort s)
      | Woken \<Rightarrow>
          if current_alarm s = time a then Inr (Timed_Wait a, s)
          else Inr (Loop_Top, alarm_insert a s))"

subsection \<open>display\_alarm\_thread: one pass over the list\<close>

text \<open>
  One iteration of the outer \<open>while (1)\<close>, between lock and unlock.  \<open>clk k\<close> is the
  value of the \<open>k\<close>-th call of \<open>time\<close> during the pass: the test on line 226 calls it
  only when the group matches (\<open>&&\<close> evaluates left to right), \<open>get_current_time\<close>
  calls it for the printed line, and line 235 calls it again for the new time.  The
  alarm is printed with the fields it had before line 235.
\<close>

fun display_scan :: "int \<Rightarrow> (nat \<Rightarrow> int) \<Rightarrow> nat \<Rightarrow> alarm list \<Rightarrow> alarm list \<times> event list" where
  "display_scan g clk k [] = ([], [])"
| "display_scan g clk k (a # as) =
     (if groupId a = g then
        (if clk k \<ge> time a then
           (let (as', evs) = display_scan g clk (k + 3) as
            in (a\<lparr>time := clk (k + 2) + seconds a\<rparr> # as', Msg_Printed a # evs))
         else
           (let (as', evs) = display_scan g clk (k + 1) as in (a # as', evs)))
      else
        (let (as', evs) = display_scan g clk k as in (a # as', evs)))"

definition display_alarm_pass :: "int \<Rightarrow> (nat \<Rightarrow> int) \<Rightarrow> state \<Rightarrow> state" where
  "display_alarm_pass g clk s =
     (let (as', evs) = display_scan g clk 0 (alarm_list s)
      in s\<lparr>alarm_list := as', trace := trace s @ evs\<rparr>)"

subsection \<open>group\_display\_creation\_thread: one pass\<close>

text \<open>
  One iteration of the outer loop after \<open>pthread_cond_wait\<close> returns.  Whether
  \<open>malloc\<close> and \<open>pthread_create\<close> succeed for a group is an input; within one pass a
  group is tried at most once, since a success sets its flag and a failure ends the
  process.  Line 260 indexes the array with \<open>group_id\<close> unchecked.
\<close>

datatype spawn_result = Spawn_Ok | Malloc_Fails | Create_Fails

definition in_bounds :: "int \<Rightarrow> bool" where
  "in_bounds g \<longleftrightarrow> 0 \<le> g \<and> g < int MAX_GROUPS"

fun creation_scan :: "(int \<Rightarrow> spawn_result) \<Rightarrow> alarm list \<Rightarrow> state \<Rightarrow> fault + state" where
  "creation_scan env [] s = Inr s"
| "creation_scan env (a # as) s =
     (let g = groupId a in
      if \<not> in_bounds g then Inl Out_Of_Bounds
      else if active_group_threads s ! nat g = 0 then
        (case env g of
           Malloc_Fails \<Rightarrow> Inl (Exit 1 (say Msg_Alloc_Failed s))
         | Create_Fails \<Rightarrow> Inl (Exit 1 (say (Msg_Create_Failed g) s))
         | Spawn_Ok \<Rightarrow>
             creation_scan env as
               (say (Msg_Created g a)
                 (s\<lparr>display_threads := display_threads s @ [g],
                    active_group_threads := (active_group_threads s)[nat g := 1]\<rparr>)))
      else creation_scan env as (say (Msg_Assigned a) s))"

definition group_display_creation_pass :: "(int \<Rightarrow> spawn_result) \<Rightarrow> state \<Rightarrow> fault + state" where
  "group_display_creation_pass env s = creation_scan env (alarm_list s) s"

subsection \<open>group\_display\_removal\_thread: one pass\<close>

text \<open>
  Lines 310--317 fill the local array \<open>groups_to_remove\<close> (1 = the group has an alarm),
  again indexing with an unchecked \<open>groupId\<close>; lines 320--332 walk all groups.
\<close>

fun mark_groups :: "alarm list \<Rightarrow> int list \<Rightarrow> fault + int list" where
  "mark_groups [] m = Inr m"
| "mark_groups (a # as) m =
     (if in_bounds (groupId a) then mark_groups as (m[nat (groupId a) := 1])
      else Inl Out_Of_Bounds)"

definition removal_visit :: "int list \<Rightarrow> nat \<Rightarrow> state \<Rightarrow> state" where
  "removal_visit marks g s =
     (if active_group_threads s ! g = 1 \<and> marks ! g = 0
      then say (Msg_Removed g) (s\<lparr>active_group_threads := (active_group_threads s)[g := 0]\<rparr>)
      else s)"

definition group_display_removal_pass :: "state \<Rightarrow> fault + state" where
  "group_display_removal_pass s =
     (case mark_groups (alarm_list s) (replicate MAX_GROUPS 0) of
        Inl f \<Rightarrow> Inl f
      | Inr marks \<Rightarrow> Inr (fold (removal_visit marks) [0..<MAX_GROUPS] s))"

subsection \<open>main: one line of input\<close>

text \<open>
  The request is the outcome of the \<open>sscanf\<close> cascade on the line read.  \<open>m_ok\<close> says
  whether the \<open>malloc\<close> on line 370 returned a block, \<open>i_ok\<close> the one inside
  \<open>insert_alarm\<close>.  The prompt and the time stamps inside printed lines are not traced.
\<close>

definition view_alarms :: "state \<Rightarrow> state" where
  "view_alarms s =
     s\<lparr>trace := trace s @
        map (\<lambda>g. Msg_View g (filter (\<lambda>a. groupId a = int g) (alarm_list s)))
          (filter (\<lambda>g. active_group_threads s ! g = 1) [0..<MAX_GROUPS])\<rparr>"

definition ack :: "bool \<Rightarrow> request \<Rightarrow> state \<Rightarrow> state" where
  "ack bad r s = (if bad then say Msg_Invalid_Request s else say (Msg_Request r) s)"

fun main_step :: "bool \<Rightarrow> bool \<Rightarrow> int \<Rightarrow> request \<Rightarrow> state \<Rightarrow> fault + state" where
  "main_step m_ok i_ok now End_Of_Input s = Inl (Exit 0 s)"
| "main_step m_ok i_ok now Empty_Line s = Inr s"
| "main_step m_ok i_ok now r s =
     (if \<not> m_ok then Inl (Abort s)
      else case r of
        Start_Alarm i g t msg \<Rightarrow>
          if i < 0 \<or> g < 0 \<or> t < 0 then Inr (say Msg_Invalid_Request s)
          else Inr (say Cond_Broadcast
                     (insert_alarm i_ok now i g t msg (say (Msg_Request r) s)))
      | Change_Alarm i g t msg \<Rightarrow> Inr (ack (i < 0 \<or> g < 0 \<or> t < 0) r s)
      | Cancel_Alarm i \<Rightarrow> Inr (ack (i < 0) r s)
      | Suspend_Alarm i \<Rightarrow> Inr (ack (i < 0) r s)
      | Reactivate_Alarm i \<Rightarrow> Inr (ack (i < 0) r s)
      | View_Alarms \<Rightarrow> Inr (view_alarms s)
      | _ \<Rightarrow> Inr (say Msg_Invalid_Request s))"

subsection \<open>The program as started by main\<close>

text \<open>
  \<open>main\<close> starts the creation and the removal thread and then reads requests; display
  threads are started by the creation thread; \<open>alarm_thread\<close> is started nowhere.
  Every pass above runs with \<open>alarm_mutex\<close> held, so an execution is a sequence of
  such passes in some order.  A display pass is a pass of the \<open>n\<close>-th started display
  thread; before that thread exists there is nothing to run.
\<close>

datatype action =
    Main_Request bool bool int request
  | Creation_Pass "int \<Rightarrow> spawn_result"
  | Removal_Pass
  | Display_Pass nat "nat \<Rightarrow> int"

fun step :: "action \<Rightarrow> state \<Rightarrow> fault + state" where
  "step (Main_Request m_ok i_ok now r) s = main_step m_ok i_ok now r s"
| "step (Creation_Pass env) s = group_display_creation_pass env s"
| "step Removal_Pass s = group_display_removal_pass s"
| "step (Display_Pass n clk) s =
     (if n < length (display_threads s)
      then Inr (display_alarm_pass (display_threads s ! n) clk s)
      else Inr s)"

fun run :: "action list \<Rightarrow> state \<Rightarrow> fault + state" where
  "run [] s = Inr s"
| "run (x # xs) s = (case step x s of Inl f \<Rightarrow> Inl f | Inr s' \<Rightarrow> run xs s')"

subsection \<open>Sequences of insertions\<close>

text \<open>The arguments of one call of \<open>insert_alarm\<close>, in the order of its model.\<close>

type_synonym insert_call = "bool \<times> int \<times> int \<times> int \<times> int \<times> string"

definition insert_alarm_call :: "insert_call \<Rightarrow> state \<Rightarrow> state" where
  "insert_alarm_call = (\<lambda>(ok, now, i, g, secs, msg). insert_alarm ok now i g secs msg)"

definition by_time :: "alarm list \<Rightarrow> bool" where
  "by_time xs \<longleftrightarrow> sorted (map time xs)"

definition by_id :: "alarm list \<Rightarrow> bool" where
  "by_id xs \<longleftrightarrow> sorted (map alarm_id xs)"

subsection \<open>The dispatcher and the callers of alarm\_insert\<close>

text \<open>
  \<open>alarm_thread\<close> together with threads that call \<open>alarm_insert\<close>: an execution is a
  sequence of insertions and of returns from the dispatcher's waits.  An insertion needs
  the mutex, which the dispatcher gives up only inside a wait; the model lets it happen
  at any point, which only adds executions.
\<close>

datatype dispatch_action = Insert alarm | Wake wait_status int

fun dispatch_step :: "dispatch_action \<Rightarrow> control \<times> state \<Rightarrow> fault + control \<times> state" where
  "dispatch_step (Insert c) (ctl, s) = Inr (ctl, alarm_insert c s)"
| "dispatch_step (Wake st now) (ctl, s) = alarm_thread_step ctl st now s"

fun dispatch_run :: "dispatch_action list \<Rightarrow> control \<times> state \<Rightarrow> fault + control \<times> state" where
  "dispatch_run [] cs = Inr cs"
| "dispatch_run (x # xs) cs =
     (case dispatch_step x cs of Inl f \<Rightarrow> Inl f | Inr cs' \<Rightarrow> dispatch_run xs cs')"



text \<open>
  What holds of the dispatcher when every alarm arrives through \<open>alarm_insert\<close> with
  a time after the epoch: the list is sorted by time, and during a timed wait
  \<open>current_alarm\<close> is not 0, not later than the alarm waited for and not later than
  any alarm on the list.
\<close>

definition settled :: "control \<times> state \<Rightarrow> bool" where
  "settled cs \<longleftrightarrow>
     by_time (alarm_list (snd cs)) \<and>
     (\<forall>y \<in> set (alarm_list (snd cs)). 0 < time y) \<and>
     (\<forall>x. fst cs = Timed_Wait x \<longrightarrow>
        0 < current_alarm (snd cs) \<and> current_alarm (snd cs) \<le> time x \<and>
        (\<forall>y \<in> set (alarm_list (snd cs)). current_alarm (snd cs) \<le> time y))"

subsection \<open>Consistency of the worker table\<close>

text \<open>
  What holds of the flag array in every state the started program reaches: it has
  \<open>MAX_GROUPS\<close> entries, each 0 or 1; a group has one started display thread when
  its flag is set and none otherwise; and a set flag belongs to a group that has an
  alarm on the list.
\<close>

definition consistent :: "state \<Rightarrow> bool" where
  "consistent s \<longleftrightarrow>
     length (active_group_threads s) = MAX_GROUPS \<and>
     (\<forall>g. count_list (display_threads s) g =
        (if in_bounds g \<and> active_group_threads s ! nat g \<noteq> 0 then 1 else 0)) \<and>
     (\<forall>k < MAX_GROUPS. active_group_threads s ! k \<noteq> 0 \<longrightarrow>
        active_group_threads s ! k = 1 \<and> int k \<in> groupId ` set (alarm_list s))"

subsection \<open>A sample session\<close>

definition wake_up :: alarm where
  "wake_up = \<lparr>seconds = 10, time = 10, message = ''wake up'', alarm_id = 1, groupId = 5\<rparr>"

definition coffee :: alarm where
  "coffee = \<lparr>seconds = 5, time = 5, message = ''coffee'', alarm_id = 2, groupId = 5\<rparr>"

definition tea :: alarm where
  "tea = \<lparr>seconds = 3, time = 3, message = ''tea'', alarm_id = 3, groupId = 7\<rparr>"

definition all_ok :: "int \<Rightarrow> spawn_result" where
  "all_ok g = Spawn_Ok"

definition three_requests :: "action list" where
  "three_requests =
     [Main_Request True True 0 (Start_Alarm 1 5 10 ''wake up''),
      Creation_Pass all_ok,
      Main_Request True True 0 (Start_Alarm 2 5 5 ''coffee''),
      Main_Request True True 0 (Start_Alarm 3 7 3 ''tea'')]"

definition after_three_requests :: state where
  "after_three_requests =
     \<lparr> alarm_list = [wake_up, coffee, tea], current_alarm = 0,
       active_group_threads = (replicate MAX_GROUPS 0)[5 := 1],
       display_threads = [5],
       trace = [Msg_Request (Start_Alarm 1 5 10 ''wake up''), Msg_Inserted wake_up, Cond_Broadcast,
                Msg_Created 5 wake_up,
                Msg_Request (Start_Alarm 2 5 5 ''coffee''), Msg_Inserted coffee, Cond_Broadcast,
                Msg_Request (Start_Alarm 3 7 3 ''tea''), Msg_Inserted tea, Cond_Broadcast] \<rparr>"

definition after_second_pass :: state where
  "after_second_pass =
     after_three_requests
       \<lparr> active_group_threads := (replicate MAX_GROUPS 0)[5 := 1, 7 := 1],
         display_threads := [5, 7],
         trace := trace after_three_requests @
           [Msg_Assigned wake_up, Msg_Assigned coffee, Msg_Created 7 tea] \<rparr>"

definition create_fails :: "int \<Rightarrow> spawn_result" where
  "create_fails g = Create_Fails"

text \<open>The state in which the process ends when \<open>pthread_create\<close> fails for group 7.\<close>

definition stopped_at_tea :: state where
  "stopped_at_tea =
     after_three_requests\<lparr>trace := trace after_three_requests @
        [Msg_Assigned wake_up, Msg_Assigned coffee, Msg_Create_Failed 7]\<rparr>"








section \<open>Order of the list\<close>

lemma set_insert_by_time: "set (insert_by_time a xs) = insert a (set xs)"
  by (induction xs) auto

lemma by_time_insert_by_time: "by_time xs \<Longrightarrow> by_time (insert_by_time a xs)"
  unfolding by_time_def by (induction xs) (auto simp: set_insert_by_time)

lemma set_insert_after: "set (insert_after n xs) = insert n (set xs)"
  by (induction xs) auto

lemma by_id_insert_after: "by_id xs \<Longrightarrow> by_id (insert_after n xs)"
  unfolding by_id_def by (induction xs) (auto simp: set_insert_after)

lemma by_id_insert_by_id: "by_id xs \<Longrightarrow> by_id (insert_by_id n xs)"
  using by_id_insert_after [of "tl xs" n]
  unfolding by_id_def by (cases xs) (auto simp: insert_by_id_def set_insert_after)

lemma alarm_list_alarm_insert:
  "alarm_list (alarm_insert a s) = insert_by_time a (alarm_list s)"
  by (simp add: alarm_insert_def say_def Let_def)

lemma alarm_list_insert_alarm:
  "alarm_list (insert_alarm ok now i g secs msg s) =
     (if ok then insert_by_id \<lparr> seconds = secs, time = now + secs, message = take 63 msg,
                              alarm_id = i, groupId = g \<rparr> (alarm_list s)
      else alarm_list s)"
  by (simp add: insert_alarm_def say_def Let_def)

lemma by_time_fold_alarm_insert:
  "by_time (alarm_list s) \<Longrightarrow> by_time (alarm_list (fold alarm_insert as s))"
  by (induction as arbitrary: s) (simp_all add: alarm_list_alarm_insert by_time_insert_by_time)

lemma by_id_insert_alarm_call:
  "by_id (alarm_list s) \<Longrightarrow> by_id (alarm_list (insert_alarm_call c s))"
  by (cases c) (simp add: insert_alarm_call_def alarm_list_insert_alarm by_id_insert_by_id)

lemma by_id_fold_insert_alarm:
  "by_id (alarm_list s) \<Longrightarrow> by_id (alarm_list (fold insert_alarm_call cs s))"
  by (induction cs arbitrary: s) (simp_all add: by_id_insert_alarm_call)

text \<open>
  Claim C1, as stated: after any sequence of insertions through \<open>insert_alarm\<close> or
  \<open>alarm_insert\<close> the list is sorted ascending by time.  Two calls of
  \<open>insert_alarm\<close> at clock reading 0, first id 1 with 10 seconds and then id 2 with 5
  seconds, leave the list with times 10, 5.
\<close>

theorem insert_alarm_breaks_time_order:
  "\<not> by_time (alarm_list
        (insert_alarm True 0 2 1 5 ''b'' (insert_alarm True 0 1 1 10 ''a'' init_state)))"
  by (simp add: by_time_def alarm_list_insert_alarm init_state_def insert_by_id_def)

text \<open>
  Claim C1, amended: each insertion path keeps the order it inserts by.  Any sequence
  of \<open>alarm_insert\<close> calls keeps a list sorted by time sorted by time, and any sequence
  of \<open>insert_alarm\<close> calls keeps a list sorted by id sorted by id; the empty list the
  program starts with is sorted both ways.
\<close>

theorem insert_paths_keep_their_order:
  "(by_time (alarm_list s) \<longrightarrow> by_time (alarm_list (fold alarm_insert as s))) \<and>
   (by_id (alarm_list s) \<longrightarrow> by_id (alarm_list (fold insert_alarm_call cs s))) \<and>
   by_time (alarm_list init_state) \<and> by_id (alarm_list init_state)"
proof -
  have "by_time (alarm_list init_state)" "by_id (alarm_list init_state)"
    by (simp_all add: init_state_def by_time_def by_id_def)
  then show ?thesis
    by (simp add: by_time_fold_alarm_insert by_id_fold_insert_alarm)
qed

theorem insert_paths_keep_their_order_witness:
  "by_time (alarm_list init_state) \<and>
   by_time (alarm_list (fold alarm_insert
      [\<lparr>seconds = 10, time = 10, message = ''a'', alarm_id = 1, groupId = 1\<rparr>,
       \<lparr>seconds = 5, time = 5, message = ''b'', alarm_id = 2, groupId = 1\<rparr>] init_state)) \<and>
   by_id (alarm_list init_state) \<and>
   by_id (alarm_list (fold insert_alarm_call
      [(True, 0, 2, 1, 5, ''b''), (True, 0, 1, 1, 10, ''a'')] init_state))"
  using insert_paths_keep_their_order [of init_state
      "[\<lparr>seconds = 10, time = 10, message = ''a'', alarm_id = 1, groupId = 1\<rparr>,
        \<lparr>seconds = 5, time = 5, message = ''b'', alarm_id = 2, groupId = 1\<rparr>]"
      "[(True, 0, 2, 1, 5, ''b''), (True, 0, 1, 1, 10, ''a'')]"]
  by blast

section \<open>The worker table in the started program\<close>

lemma consistent_init: "consistent init_state"
  by (simp add: consistent_def init_state_def in_bounds_def)

lemma consistent_cong:
  "consistent s \<Longrightarrow> active_group_threads s' = active_group_threads s \<Longrightarrow>
   display_threads s' = display_threads s \<Longrightarrow>
   groupId ` set (alarm_list s) \<subseteq> groupId ` set (alarm_list s') \<Longrightarrow> consistent s'"
  unfolding consistent_def by auto

lemma set_insert_by_id: "set (insert_by_id n xs) = insert n (set xs)"
  by (cases xs) (auto simp: insert_by_id_def set_insert_after)

lemma main_step_frame:
  assumes "main_step m_ok i_ok now r s = Inr s'"
  shows "active_group_threads s' = active_group_threads s"
    and "display_threads s' = display_threads s"
    and "set (alarm_list s) \<subseteq> set (alarm_list s')"
  using assms
  by (cases r; auto simp: ack_def say_def view_alarms_def insert_alarm_def Let_def
        set_insert_by_id split: if_splits)+

lemma consistent_main_step:
  "consistent s \<Longrightarrow> main_step m_ok i_ok now r s = Inr s' \<Longrightarrow> consistent s'"
  using main_step_frame [of m_ok i_ok now r s s'] consistent_cong [of s s'] by blast

lemma groupId_display_scan: "map groupId (fst (display_scan g clk k xs)) = map groupId xs"
  by (induction xs arbitrary: k) (simp_all add: case_prod_beta)

lemma consistent_display_pass:
  assumes "consistent s" shows "consistent (display_alarm_pass g clk s)"
proof (rule consistent_cong [OF assms])
  have "groupId ` set (alarm_list (display_alarm_pass g clk s)) = groupId ` set (alarm_list s)"
    using groupId_display_scan [of g clk 0 "alarm_list s"]
    by (simp add: display_alarm_pass_def case_prod_beta flip: set_map)
  then show "groupId ` set (alarm_list s) \<subseteq> groupId ` set (alarm_list (display_alarm_pass g clk s))"
    by simp
qed (simp_all add: display_alarm_pass_def case_prod_beta)


lemma in_bounds_nat: "in_bounds g \<Longrightarrow> nat g < MAX_GROUPS \<and> int (nat g) = g"
  by (simp add: in_bounds_def nat_less_iff)

lemma in_bounds_nat_eq: "in_bounds g \<Longrightarrow> in_bounds h \<Longrightarrow> nat h = nat g \<longleftrightarrow> h = g"
  by (auto simp: in_bounds_def)

lemma consistent_spawn:
  assumes c: "consistent s" and b: "in_bounds (groupId a)"
    and z: "active_group_threads s ! nat (groupId a) = 0" and a: "a \<in> set (alarm_list s)"
  shows "consistent (say e (s\<lparr>display_threads := display_threads s @ [groupId a],
            active_group_threads := (active_group_threads s)[nat (groupId a) := 1]\<rparr>))"
proof -
  let ?g = "groupId a" and ?t = "active_group_threads s"
  from c have len: "length ?t = MAX_GROUPS" by (simp add: consistent_def)
  from c have cnt: "\<And>h. count_list (display_threads s) h =
      (if in_bounds h \<and> ?t ! nat h \<noteq> 0 then 1 else 0)" by (simp add: consistent_def)
  from c have al: "\<And>k. k < MAX_GROUPS \<Longrightarrow> ?t ! k \<noteq> 0 \<Longrightarrow>
      ?t ! k = 1 \<and> int k \<in> groupId ` set (alarm_list s)" by (simp add: consistent_def)
  have g: "nat ?g < MAX_GROUPS" "int (nat ?g) = ?g" using in_bounds_nat [OF b] by simp_all
  have 1: "count_list (display_threads s @ [?g]) h =
      (if in_bounds h \<and> ?t[nat ?g := 1] ! nat h \<noteq> 0 then 1 else 0)" for h
  proof (cases "h = ?g")
    case True
    then show ?thesis using cnt [of ?g] z b g len by simp
  next
    case False
    show ?thesis
    proof (cases "in_bounds h")
      case True
      with False have "nat h \<noteq> nat ?g" using in_bounds_nat_eq [OF b True] by simp
      then show ?thesis using cnt [of h] False by simp
    next
      case False
      then show ?thesis using cnt [of h] \<open>h \<noteq> ?g\<close> by simp
    qed
  qed
  have 2: "?t[nat ?g := 1] ! k = 1 \<and> int k \<in> groupId ` set (alarm_list s)"
    if "k < MAX_GROUPS" "?t[nat ?g := 1] ! k \<noteq> 0" for k
  proof (cases "k = nat ?g")
    case True
    then show ?thesis using g len a by (auto simp: image_iff)
  next
    case False
    then show ?thesis using that al [of k] by simp
  qed
  show ?thesis
    unfolding consistent_def using len 1 2 by (simp add: say_def)
qed

lemma consistent_say: "consistent (say e s) = consistent s"
  by (simp add: consistent_def say_def)

lemma alarm_list_say: "alarm_list (say e s) = alarm_list s"
  by (simp add: say_def)

lemma creation_scan_consistent:
  "consistent s \<Longrightarrow> set xs \<subseteq> set (alarm_list s) \<Longrightarrow> creation_scan env xs s = Inr s' \<Longrightarrow>
   consistent s'"
proof (induction xs arbitrary: s)
  case Nil
  then show ?case by simp
next
  case (Cons a xs)
  let ?g = "groupId a"
  from Cons.prems(3) have b: "in_bounds ?g"
    by (simp add: Let_def split: if_splits)
  from Cons.prems(2) have a: "a \<in> set (alarm_list s)" and xs: "set xs \<subseteq> set (alarm_list s)"
    by simp_all
  show ?case
  proof (cases "active_group_threads s ! nat ?g = 0")
    case True
    let ?s2 = "say (Msg_Created ?g a)
        (s\<lparr>display_threads := display_threads s @ [?g],
           active_group_threads := (active_group_threads s)[nat ?g := 1]\<rparr>)"
    from Cons.prems(3) b True have run: "creation_scan env xs ?s2 = Inr s'"
      by (simp add: Let_def split: spawn_result.splits)
    have "consistent ?s2" by (rule consistent_spawn [OF Cons.prems(1) b True a])
    moreover have "set xs \<subseteq> set (alarm_list ?s2)" using xs by (simp add: say_def)
    ultimately show ?thesis using Cons.IH run by blast
  next
    case False
    with Cons.prems(3) b have run: "creation_scan env xs (say (Msg_Assigned a) s) = Inr s'"
      by (simp add: Let_def)
    show ?thesis
      using Cons.IH [OF _ _ run] Cons.prems(1) xs by (simp add: consistent_say alarm_list_say)
  qed
qed

lemma mark_groups_result:
  "mark_groups xs m = Inr marks \<Longrightarrow>
   length marks = length m \<and>
   (\<forall>k < length m. marks ! k = (if int k \<in> groupId ` set xs then 1 else m ! k))"
proof (induction xs arbitrary: m)
  case Nil
  then show ?case by simp
next
  case (Cons a xs)
  from Cons.prems have b: "in_bounds (groupId a)"
    and run: "mark_groups xs (m[nat (groupId a) := 1]) = Inr marks"
    by (simp_all split: if_splits)
  from Cons.IH [OF run] have len: "length marks = length m"
    and v: "\<And>k. k < length m \<Longrightarrow>
      marks ! k = (if int k \<in> groupId ` set xs then 1 else m[nat (groupId a) := 1] ! k)"
    by simp_all
  have "marks ! k = (if int k \<in> groupId ` set (a # xs) then 1 else m ! k)" if "k < length m" for k
    using v [OF that] that in_bounds_nat [OF b] by (auto simp: nth_list_update)
  with len show ?case by simp
qed

lemma fold_removal_visit_idle:
  "\<forall>k \<in> set ks. \<not> (active_group_threads s ! k = 1 \<and> marks ! k = 0) \<Longrightarrow>
   fold (removal_visit marks) ks s = s"
  by (induction ks) (auto simp: removal_visit_def)

lemma removal_pass_consistent:
  assumes c: "consistent s" and r: "group_display_removal_pass s = Inr s'"
  shows "s' = s"
proof -
  from r obtain marks where m: "mark_groups (alarm_list s) (replicate MAX_GROUPS 0) = Inr marks"
    and s': "s' = fold (removal_visit marks) [0..<MAX_GROUPS] s"
    by (auto simp: group_display_removal_pass_def split: sum.splits)
  have "\<not> (active_group_threads s ! k = 1 \<and> marks ! k = 0)" if "k < MAX_GROUPS" for k
  proof
    assume h: "active_group_threads s ! k = 1 \<and> marks ! k = 0"
    with c that have "int k \<in> groupId ` set (alarm_list s)" by (simp add: consistent_def)
    with mark_groups_result [OF m] that have "marks ! k = 1" by simp
    with h show False by simp
  qed
  then show ?thesis using s' fold_removal_visit_idle [of "[0..<MAX_GROUPS]" s marks] by simp
qed

lemma consistent_step: "consistent s \<Longrightarrow> step x s = Inr s' \<Longrightarrow> consistent s'"
proof (cases x)
  case (Main_Request m_ok i_ok now r)
  assume "consistent s" "step x s = Inr s'"
  with Main_Request show ?thesis using consistent_main_step by simp
next
  case (Creation_Pass env)
  assume "consistent s" "step x s = Inr s'"
  with Creation_Pass show ?thesis
    using creation_scan_consistent [of s "alarm_list s" env s']
    by (simp add: group_display_creation_pass_def)
next
  case Removal_Pass
  assume "consistent s" "step x s = Inr s'"
  with Removal_Pass show ?thesis using removal_pass_consistent by auto
next
  case (Display_Pass n clk)
  assume "consistent s" "step x s = Inr s'"
  with Display_Pass show ?thesis using consistent_display_pass by (auto split: if_splits)
qed

lemma consistent_run: "consistent s \<Longrightarrow> run xs s = Inr s' \<Longrightarrow> consistent s'"
proof (induction xs arbitrary: s)
  case Nil
  then show ?case by simp
next
  case (Cons x xs)
  then show ?case by (auto split: sum.splits dest: consistent_step)
qed

lemma creation_scan_spawns:
  "creation_scan env xs s = Inr s' \<Longrightarrow> length (active_group_threads s) = MAX_GROUPS \<Longrightarrow>
   length (active_group_threads s') = MAX_GROUPS \<and>
   alarm_list s' = alarm_list s \<and>
   (\<forall>k. active_group_threads s ! k \<noteq> 0 \<longrightarrow>
        active_group_threads s' ! k = active_group_threads s ! k) \<and>
   (\<forall>a \<in> set xs. in_bounds (groupId a) \<and> active_group_threads s' ! nat (groupId a) \<noteq> 0) \<and>
   (\<exists>new. display_threads s' = display_threads s @ new \<and> distinct new \<and>
      (\<forall>h \<in> set new. active_group_threads s ! nat h = 0 \<and>
                      active_group_threads s' ! nat h = 1))"
proof (induction xs arbitrary: s)
  case Nil
  then show ?case by simp
next
  case (Cons a xs)
  let ?g = "groupId a" and ?t = "active_group_threads s"
  from Cons.prems(1) have b: "in_bounds ?g"
    by (simp add: Let_def split: if_splits)
  have g: "nat ?g < length ?t" using in_bounds_nat [OF b] Cons.prems(2) by simp
  show ?case
  proof (cases "?t ! nat ?g = 0")
    case True
    let ?s2 = "say (Msg_Created ?g a)
        (s\<lparr>display_threads := display_threads s @ [?g], active_group_threads := ?t[nat ?g := 1]\<rparr>)"
    from Cons.prems(1) b True have run: "creation_scan env xs ?s2 = Inr s'"
      by (simp add: Let_def split: spawn_result.splits)
    have t2: "active_group_threads ?s2 = ?t[nat ?g := 1]"
      and d2: "display_threads ?s2 = display_threads s @ [?g]"
      and a2: "alarm_list ?s2 = alarm_list s"
      by (simp_all add: say_def)
    have len2: "length (active_group_threads ?s2) = MAX_GROUPS"
      using Cons.prems(2) by (simp add: t2)
    from Cons.IH [OF run len2] obtain new where
      len': "length (active_group_threads s') = MAX_GROUPS"
      and al: "alarm_list s' = alarm_list s"
      and mono: "\<And>k. ?t[nat ?g := 1] ! k \<noteq> 0 \<Longrightarrow> active_group_threads s' ! k = ?t[nat ?g := 1] ! k"
      and xs: "\<And>x. x \<in> set xs \<Longrightarrow> in_bounds (groupId x) \<and> active_group_threads s' ! nat (groupId x) \<noteq> 0"
      and d: "display_threads s' = (display_threads s @ [?g]) @ new"
      and dist: "distinct new"
      and new: "\<And>h. h \<in> set new \<Longrightarrow> ?t[nat ?g := 1] ! nat h = 0 \<and> active_group_threads s' ! nat h = 1"
      unfolding t2 d2 a2 by blast
    have g1: "active_group_threads s' ! nat ?g = 1" using mono [of "nat ?g"] g by simp
    have notin: "?g \<notin> set new" using new [of ?g] g by auto
    have old: "active_group_threads s' ! k = ?t ! k" if "?t ! k \<noteq> 0" for k
      using mono [of k] that True by (cases "k = nat ?g") auto
    have new': "?t ! nat h = 0 \<and> active_group_threads s' ! nat h = 1" if "h \<in> set (?g # new)" for h
    proof (cases "h = ?g")
      case True
      with \<open>?t ! nat ?g = 0\<close> g1 show ?thesis by simp
    next
      case False
      with that have h: "h \<in> set new" by simp
      from new [OF h] have "nat h \<noteq> nat ?g" using g by auto
      with new [OF h] show ?thesis by simp
    qed
    have "display_threads s' = display_threads s @ (?g # new) \<and> distinct (?g # new)"
      using d dist notin by simp
    with new' have ex: "\<exists>new. display_threads s' = display_threads s @ new \<and> distinct new \<and>
      (\<forall>h \<in> set new. ?t ! nat h = 0 \<and> active_group_threads s' ! nat h = 1)"
      by blast
    show ?thesis using len' al old xs b g1 ex by auto
  next
    case False
    with Cons.prems(1) b have run: "creation_scan env xs (say (Msg_Assigned a) s) = Inr s'"
      by (simp add: Let_def)
    have "length (active_group_threads (say (Msg_Assigned a) s)) = MAX_GROUPS"
      using Cons.prems(2) by (simp add: say_def)
    from Cons.IH [OF run this] have ih:
      "length (active_group_threads s') = MAX_GROUPS \<and>
       alarm_list s' = alarm_list s \<and>
       (\<forall>k. ?t ! k \<noteq> 0 \<longrightarrow> active_group_threads s' ! k = ?t ! k) \<and>
       (\<forall>a \<in> set xs. in_bounds (groupId a) \<and> active_group_threads s' ! nat (groupId a) \<noteq> 0) \<and>
       (\<exists>new. display_threads s' = display_threads s @ new \<and> distinct new \<and>
          (\<forall>h \<in> set new. ?t ! nat h = 0 \<and> active_group_threads s' ! nat h = 1))"
      by (simp add: say_def)
    then have "active_group_threads s' ! nat ?g \<noteq> 0" using False by simp
    with ih b show ?thesis by simp
  qed
qed

lemma creation_scan_all_active:
  "\<forall>a \<in> set xs. in_bounds (groupId a) \<and> active_group_threads s ! nat (groupId a) \<noteq> 0 \<Longrightarrow>
   \<exists>s'. creation_scan env xs s = Inr s' \<and> display_threads s' = display_threads s \<and>
        active_group_threads s' = active_group_threads s \<and> alarm_list s' = alarm_list s"
proof (induction xs arbitrary: s)
  case Nil
  then show ?case by simp
next
  case (Cons a xs)
  have "\<forall>x \<in> set xs. in_bounds (groupId x) \<and>
      active_group_threads (say (Msg_Assigned a) s) ! nat (groupId x) \<noteq> 0"
    using Cons.prems by (simp add: say_def)
  from Cons.IH [OF this] show ?case using Cons.prems by (simp add: say_def Let_def)
qed

lemma run_three_requests: "run three_requests init_state = Inr after_three_requests"
  by (simp add: three_requests_def after_three_requests_def init_state_def insert_alarm_def
      say_def insert_by_id_def group_display_creation_pass_def in_bounds_def MAX_GROUPS_def
      all_ok_def wake_up_def coffee_def tea_def Let_def)

lemma second_pass:
  "group_display_creation_pass all_ok after_three_requests = Inr after_second_pass"
  by (simp add: after_three_requests_def after_second_pass_def
      say_def group_display_creation_pass_def in_bounds_def MAX_GROUPS_def
      all_ok_def wake_up_def coffee_def tea_def Let_def)

text \<open>
  Claim C5: in every state the started program reaches (any order of requests, creation
  passes, removal passes and display passes from the initial state), no group has more
  than one started display thread.  A creation pass starts threads only for groups
  whose flag was 0, one each, and leaves their flag at 1; a further pass on the same
  list then starts nothing and leaves the table as it is.
\<close>

theorem one_display_thread_per_group:
  assumes "run acts init_state = Inr s"
  shows "count_list (display_threads s) g \<le> 1 \<and>
    (\<forall>s'. group_display_creation_pass env s = Inr s' \<longrightarrow>
       (\<exists>new. display_threads s' = display_threads s @ new \<and> distinct new \<and>
          (\<forall>h \<in> set new. active_group_threads s ! nat h = 0 \<and>
                          active_group_threads s' ! nat h = 1)) \<and>
       (\<exists>s''. group_display_creation_pass env' s' = Inr s'' \<and>
          display_threads s'' = display_threads s' \<and>
          active_group_threads s'' = active_group_threads s'))"
proof -
  have c: "consistent s" using consistent_run [OF consistent_init assms] .
  then have len: "length (active_group_threads s) = MAX_GROUPS" by (simp add: consistent_def)
  have 1: "count_list (display_threads s) g \<le> 1" using c by (simp add: consistent_def)
  have 2: "(\<exists>new. display_threads s' = display_threads s @ new \<and> distinct new \<and>
          (\<forall>h \<in> set new. active_group_threads s ! nat h = 0 \<and>
                          active_group_threads s' ! nat h = 1)) \<and>
       (\<exists>s''. group_display_creation_pass env' s' = Inr s'' \<and>
          display_threads s'' = display_threads s' \<and>
          active_group_threads s'' = active_group_threads s')"
    if "group_display_creation_pass env s = Inr s'" for s'
  proof -
    from that have run: "creation_scan env (alarm_list s) s = Inr s'"
      by (simp add: group_display_creation_pass_def)
    note r = creation_scan_spawns [OF run len]
    from r have "\<forall>a \<in> set (alarm_list s'). in_bounds (groupId a) \<and>
        active_group_threads s' ! nat (groupId a) \<noteq> 0" by simp
    from creation_scan_all_active [OF this, of env'] r show ?thesis
      by (auto simp: group_display_creation_pass_def)
  qed
  from 1 2 show ?thesis by blast
qed

theorem one_display_thread_per_group_witness:
  "run three_requests init_state = Inr after_three_requests \<and>
   group_display_creation_pass all_ok after_three_requests = Inr after_second_pass \<and>
   count_list (display_threads after_three_requests) 5 \<le> 1 \<and>
   (\<exists>new. display_threads after_second_pass = display_threads after_three_requests @ new \<and>
      distinct new \<and>
      (\<forall>h \<in> set new. active_group_threads after_three_requests ! nat h = 0 \<and>
                      active_group_threads after_second_pass ! nat h = 1)) \<and>
   (\<exists>s''. group_display_creation_pass all_ok after_second_pass = Inr s'' \<and>
      display_threads s'' = display_threads after_second_pass \<and>
      active_group_threads s'' = active_group_threads after_second_pass)"
  using one_display_thread_per_group [OF run_three_requests, of 5 all_ok all_ok]
    run_three_requests second_pass
  by blast

section \<open>The display pass\<close>

lemma display_scan_constant_clock:
  "\<forall>k. clk k = now \<Longrightarrow>
   display_scan g clk k xs =
     (map (\<lambda>a. if groupId a = g \<and> time a \<le> now then a\<lparr>time := now + seconds a\<rparr> else a) xs,
      map Msg_Printed (filter (\<lambda>a. groupId a = g \<and> time a \<le> now) xs))"
  by (induction xs arbitrary: k) simp_all

text \<open>Whatever the clock does, a pass changes nothing but times, and those only in its group.\<close>

lemma display_scan_only_times:
  "map (\<lambda>a. a\<lparr>time := 0\<rparr>) (fst (display_scan g clk k xs)) = map (\<lambda>a. a\<lparr>time := 0\<rparr>) xs \<and>
   filter (\<lambda>a. groupId a \<noteq> g) (fst (display_scan g clk k xs)) = filter (\<lambda>a. groupId a \<noteq> g) xs"
  by (induction xs arbitrary: k) (simp_all add: case_prod_beta)

text \<open>
  Claim C8: let \<open>now\<close> be the current time of a pass of the display thread of group
  \<open>g\<close>, the value every call of \<open>time\<close> returns during the pass.  The pass prints
  exactly the alarms of group \<open>g\<close> whose time is at most \<open>now\<close>, in list order, sets
  the time of each of them to \<open>now\<close> plus its seconds, and changes no other field, no
  other alarm and nothing else of the state.
\<close>

theorem display_pass_reports_and_reschedules:
  assumes "\<forall>k. clk k = now"
  shows "display_alarm_pass g clk s =
     s\<lparr>alarm_list :=
          map (\<lambda>a. if groupId a = g \<and> time a \<le> now then a\<lparr>time := now + seconds a\<rparr> else a)
            (alarm_list s),
        trace := trace s @
          map Msg_Printed (filter (\<lambda>a. groupId a = g \<and> time a \<le> now) (alarm_list s))\<rparr>"
  by (simp add: display_alarm_pass_def display_scan_constant_clock [OF assms])

theorem display_pass_reports_and_reschedules_witness:
  "(\<forall>k. (\<lambda>_. 7) k = (7::int)) \<and>
   display_alarm_pass 5 (\<lambda>_. 7) after_three_requests =
     after_three_requests
       \<lparr>alarm_list := [wake_up, coffee\<lparr>time := 12\<rparr>, tea],
        trace := trace after_three_requests @ [Msg_Printed coffee]\<rparr>"
  using display_pass_reports_and_reschedules [of "\<lambda>_. 7" 7 5 after_three_requests]
  by (simp add: after_three_requests_def wake_up_def coffee_def tea_def)

section \<open>Requests\<close>

text \<open>
  Claim C9: a Change\_Alarm, Cancel\_Alarm, Suspend\_Alarm or Reactivate\_Alarm line
  (whatever its numbers, the \<open>malloc\<close> on line 370 succeeding) is answered on the
  terminal only: the alarm list and the flag array are the same after it, and so are
  \<open>current_alarm\<close> and the started threads.
\<close>

theorem unwired_requests_leave_core_state:
  assumes "r = Change_Alarm i g t msg \<or> r = Cancel_Alarm i \<or> r = Suspend_Alarm i
           \<or> r = Reactivate_Alarm i"
  shows "\<exists>s'. main_step True i_ok now r s = Inr s' \<and>
           alarm_list s' = alarm_list s \<and>
           active_group_threads s' = active_group_threads s \<and>
           current_alarm s' = current_alarm s \<and>
           display_threads s' = display_threads s"
  using assms by (auto simp: ack_def say_def)

theorem unwired_requests_leave_core_state_witness:
  "\<exists>s'. main_step True True 0 (Cancel_Alarm 3) after_three_requests = Inr s' \<and>
           alarm_list s' = alarm_list after_three_requests \<and>
           active_group_threads s' = active_group_threads after_three_requests \<and>
           current_alarm s' = current_alarm after_three_requests \<and>
           display_threads s' = display_threads after_three_requests"
  using unwired_requests_leave_core_state
    [where r = "Cancel_Alarm 3" and i = 3 and i_ok = True and now = 0
       and s = after_three_requests]
  by simp

text \<open>
  Claim C2 at group 256: the request passes the checks of \<open>main\<close> (only negative
  numbers are refused), \<open>insert_alarm\<close> checks nothing, and the alarm is on the list
  afterwards.
\<close>

theorem start_alarm_group_256_is_inserted:
  "\<exists>s'. main_step True True 0 (Start_Alarm 1 256 10 ''x'') init_state = Inr s' \<and>
      alarm_list s' =
        [\<lparr>seconds = 10, time = 10, message = ''x'', alarm_id = 1, groupId = 256\<rparr>] \<and>
      alarm_list init_state = []"
  by (simp add: insert_alarm_def say_def init_state_def insert_by_id_def Let_def)

text \<open>
  Claim C10 at group 256: with that alarm on the list, the next creation pass and the
  next removal pass index their 256-entry arrays at 256.
\<close>

theorem group_256_indexes_past_the_flag_array:
  "run [Main_Request True True 0 (Start_Alarm 1 256 10 ''x''), Creation_Pass all_ok]
      init_state = Inl Out_Of_Bounds \<and>
   run [Main_Request True True 0 (Start_Alarm 1 256 10 ''x''), Removal_Pass]
      init_state = Inl Out_Of_Bounds"
  by (simp add: insert_alarm_def say_def init_state_def insert_by_id_def Let_def
       group_display_creation_pass_def group_display_removal_pass_def in_bounds_def
       MAX_GROUPS_def)

section \<open>Failure inside the creation pass\<close>

lemma creation_scan_exit:
  "creation_scan env xs s = Inl (Exit c s') \<Longrightarrow>
   c = 1 \<and> alarm_list s' = alarm_list s \<and>
   (\<exists>a \<in> set xs. env (groupId a) \<noteq> Spawn_Ok \<and>
      active_group_threads s' ! nat (groupId a) = 0 \<and>
      last (trace s') = (if env (groupId a) = Malloc_Fails then Msg_Alloc_Failed
                         else Msg_Create_Failed (groupId a)))"
proof (induction xs arbitrary: s)
  case Nil
  then show ?case by simp
next
  case (Cons a xs)
  let ?g = "groupId a"
  from Cons.prems have b: "in_bounds ?g" by (simp add: Let_def split: if_splits)
  show ?case
  proof (cases "active_group_threads s ! nat ?g = 0")
    case True
    show ?thesis
    proof (cases "env ?g")
      case Spawn_Ok
      let ?s2 = "say (Msg_Created ?g a)
        (s\<lparr>display_threads := display_threads s @ [?g],
           active_group_threads := (active_group_threads s)[nat ?g := 1]\<rparr>)"
      from Cons.prems b True Spawn_Ok have "creation_scan env xs ?s2 = Inl (Exit c s')"
        by (simp add: Let_def)
      from Cons.IH [OF this] show ?thesis by (simp add: say_def)
    next
      case Malloc_Fails
      with Cons.prems b True show ?thesis by (auto simp: Let_def say_def)
    next
      case Create_Fails
      with Cons.prems b True show ?thesis by (auto simp: Let_def say_def)
    qed
  next
    case False
    with Cons.prems b have "creation_scan env xs (say (Msg_Assigned a) s) = Inl (Exit c s')"
      by (simp add: Let_def)
    from Cons.IH [OF this] show ?thesis by (simp add: say_def)
  qed
qed

lemma creation_scan_failure_exits:
  "length (active_group_threads s) = MAX_GROUPS \<Longrightarrow>
   \<forall>a \<in> set xs. in_bounds (groupId a) \<Longrightarrow>
   \<exists>a \<in> set xs. active_group_threads s ! nat (groupId a) = 0 \<and> env (groupId a) \<noteq> Spawn_Ok \<Longrightarrow>
   \<exists>s'. creation_scan env xs s = Inl (Exit 1 s')"
proof (induction xs arbitrary: s)
  case Nil
  then show ?case by simp
next
  case (Cons a xs)
  let ?g = "groupId a" and ?t = "active_group_threads s"
  from Cons.prems(2) have b: "in_bounds ?g" and bs: "\<forall>x \<in> set xs. in_bounds (groupId x)"
    by simp_all
  from Cons.prems(3) obtain f where f: "f \<in> set (a # xs)" "?t ! nat (groupId f) = 0"
    "env (groupId f) \<noteq> Spawn_Ok" by blast
  show ?case
  proof (cases "?t ! nat ?g = 0")
    case True
    show ?thesis
    proof (cases "env ?g")
      case Spawn_Ok
      let ?s2 = "say (Msg_Created ?g a)
        (s\<lparr>display_threads := display_threads s @ [?g], active_group_threads := ?t[nat ?g := 1]\<rparr>)"
      from f Spawn_Ok have fx: "f \<in> set xs" and ne: "groupId f \<noteq> ?g" by auto
      from bs fx have "in_bounds (groupId f)" by simp
      with ne b have "nat (groupId f) \<noteq> nat ?g" using in_bounds_nat_eq by blast
      with f(2) have "active_group_threads ?s2 ! nat (groupId f) = 0" by (simp add: say_def)
      with fx f(3) have ex: "\<exists>x \<in> set xs. active_group_threads ?s2 ! nat (groupId x) = 0 \<and>
          env (groupId x) \<noteq> Spawn_Ok" by blast
      have "length (active_group_threads ?s2) = MAX_GROUPS" using Cons.prems(1) by (simp add: say_def)
      from Cons.IH [OF this bs ex] show ?thesis using b True Spawn_Ok by (simp add: Let_def)
    next
      case Malloc_Fails
      with b True show ?thesis by (simp add: Let_def)
    next
      case Create_Fails
      with b True show ?thesis by (simp add: Let_def)
    qed
  next
    case False
    with f have fx: "f \<in> set xs" by auto
    with f have ex: "\<exists>x \<in> set xs. active_group_threads (say (Msg_Assigned a) s) ! nat (groupId x) = 0 \<and>
          env (groupId x) \<noteq> Spawn_Ok" by (auto simp: say_def)
    have "length (active_group_threads (say (Msg_Assigned a) s)) = MAX_GROUPS"
      using Cons.prems(1) by (simp add: say_def)
    from Cons.IH [OF this bs ex] show ?thesis using b False by (simp add: Let_def)
  qed
qed

text \<open>
  Claim C7, as stated: a failing \<open>malloc\<close> or \<open>pthread_create\<close> in the creation pass
  is logged and the process goes on.  With \<open>pthread_create\<close> failing, the pass over
  the three alarms of the sample session reaches group 7, prints the error and calls
  \<open>exit (1)\<close>.
\<close>

theorem creation_failure_stops_the_process:
  "group_display_creation_pass create_fails after_three_requests = Inl (Exit 1 stopped_at_tea)"
  by (simp add: after_three_requests_def say_def group_display_creation_pass_def in_bounds_def
      MAX_GROUPS_def wake_up_def coffee_def tea_def Let_def create_fails_def stopped_at_tea_def)

text \<open>
  Claim C7, amended: a failing \<open>malloc\<close> or \<open>pthread_create\<close> in the creation pass is
  logged and ends the process with \<open>exit (1)\<close>.  Whenever a pass ends in an exit, the
  status is 1, the last line written is the error message for a group of the list whose
  allocation or creation failed, that group's flag is 0 in the final state and the list
  is as before; and a pass does end so whenever the list (all groups in range) has an
  alarm of a group with flag 0 for which the allocation or creation fails.
\<close>

theorem creation_failure_exits:
  "(group_display_creation_pass env s = Inl (Exit c s') \<longrightarrow>
      c = 1 \<and> alarm_list s' = alarm_list s \<and>
      (\<exists>a \<in> set (alarm_list s). env (groupId a) \<noteq> Spawn_Ok \<and>
         active_group_threads s' ! nat (groupId a) = 0 \<and>
         last (trace s') = (if env (groupId a) = Malloc_Fails then Msg_Alloc_Failed
                            else Msg_Create_Failed (groupId a)))) \<and>
   (length (active_group_threads s) = MAX_GROUPS \<and>
    (\<forall>a \<in> set (alarm_list s). in_bounds (groupId a)) \<and>
    (\<exists>a \<in> set (alarm_list s). active_group_threads s ! nat (groupId a) = 0 \<and>
        env (groupId a) \<noteq> Spawn_Ok) \<longrightarrow>
    (\<exists>s'. group_display_creation_pass env s = Inl (Exit 1 s')))"
  unfolding group_display_creation_pass_def
  using creation_scan_exit [of env "alarm_list s" s c s']
    creation_scan_failure_exits [of s "alarm_list s" env]
  by blast

theorem creation_failure_exits_witness:
  "group_display_creation_pass create_fails after_three_requests = Inl (Exit 1 stopped_at_tea) \<and>
   alarm_list stopped_at_tea = alarm_list after_three_requests \<and>
   (\<exists>a \<in> set (alarm_list after_three_requests). create_fails (groupId a) \<noteq> Spawn_Ok \<and>
       active_group_threads stopped_at_tea ! nat (groupId a) = 0 \<and>
       last (trace stopped_at_tea) = Msg_Create_Failed (groupId a)) \<and>
   length (active_group_threads after_three_requests) = MAX_GROUPS \<and>
   alarm_list after_three_requests = [wake_up, coffee, tea] \<and>
   in_bounds (groupId wake_up) \<and> in_bounds (groupId coffee) \<and> in_bounds (groupId tea) \<and>
   (\<exists>a \<in> set (alarm_list after_three_requests).
       active_group_threads after_three_requests ! nat (groupId a) = 0 \<and>
       create_fails (groupId a) \<noteq> Spawn_Ok) \<and>
   (\<exists>s'. group_display_creation_pass create_fails after_three_requests = Inl (Exit 1 s'))"
proof -
  have run: "group_display_creation_pass create_fails after_three_requests
      = Inl (Exit 1 stopped_at_tea)"
    by (simp add: after_three_requests_def say_def group_display_creation_pass_def in_bounds_def
      MAX_GROUPS_def wake_up_def coffee_def tea_def Let_def create_fails_def stopped_at_tea_def)
  have len: "length (active_group_threads after_three_requests) = MAX_GROUPS"
    by (simp add: after_three_requests_def)
  have inb: "\<forall>a \<in> set (alarm_list after_three_requests). in_bounds (groupId a)"
    by (simp add: after_three_requests_def in_bounds_def MAX_GROUPS_def
        wake_up_def coffee_def tea_def)
  have tea: "\<exists>a \<in> set (alarm_list after_three_requests).
       active_group_threads after_three_requests ! nat (groupId a) = 0 \<and>
       create_fails (groupId a) \<noteq> Spawn_Ok"
    by (simp add: after_three_requests_def MAX_GROUPS_def create_fails_def
        wake_up_def coffee_def tea_def)
  have lst: "alarm_list after_three_requests = [wake_up, coffee, tea]"
    by (simp add: after_three_requests_def)
  from creation_failure_exits [of create_fails after_three_requests 1 stopped_at_tea]
    run len inb tea
  have "alarm_list stopped_at_tea = alarm_list after_three_requests \<and>
   (\<exists>a \<in> set (alarm_list after_three_requests). create_fails (groupId a) \<noteq> Spawn_Ok \<and>
       active_group_threads stopped_at_tea ! nat (groupId a) = 0 \<and>
       last (trace stopped_at_tea) = Msg_Create_Failed (groupId a)) \<and>
   (\<exists>s'. group_display_creation_pass create_fails after_three_requests = Inl (Exit 1 s'))"
    by (simp add: create_fails_def)
  with run len inb tea lst show ?thesis by simp
qed

section \<open>Waking the waiters\<close>

text \<open>
  Claim C6, as stated: every insertion sets \<open>current_alarm\<close> to the new time when the
  dispatcher is idle or the new time is earlier, and broadcasts.  On the initial state
  (\<open>current_alarm = 0\<close>, idle) \<open>insert_alarm\<close> puts \<open>wake_up\<close> (time 10) on the list
  and leaves \<open>current_alarm\<close> at 0; \<open>alarm_insert\<close> puts it on the list and does not
  broadcast.
\<close>

theorem insert_without_deadline_update_or_broadcast:
  "current_alarm init_state = 0 \<and>
   current_alarm (insert_alarm True 0 1 5 10 ''wake up'' init_state) \<noteq> 10 \<and>
   alarm_list (insert_alarm True 0 1 5 10 ''wake up'' init_state) = [wake_up] \<and>
   alarm_list (alarm_insert wake_up init_state) = [wake_up] \<and>
   Cond_Broadcast \<notin> set (trace (alarm_insert wake_up init_state))"
  by (simp add: init_state_def insert_alarm_def alarm_insert_def say_def insert_by_id_def
       wake_up_def Let_def)

text \<open>
  Claim C6, amended: \<open>alarm_insert\<close> sets \<open>current_alarm\<close> to the new alarm's time and
  wakes one waiter (\<open>pthread_cond_signal\<close>) when \<open>current_alarm\<close> is 0 or the new
  time is earlier, and does neither otherwise; \<open>main\<close> broadcasts after every
  Start\_Alarm request that it accepts.
\<close>

theorem alarm_insert_signals_start_alarm_broadcasts:
  "(current_alarm s = 0 \<or> time a < current_alarm s \<longrightarrow>
      current_alarm (alarm_insert a s) = time a \<and>
      trace (alarm_insert a s) = trace s @ [Cond_Signal]) \<and>
   (\<not> (current_alarm s = 0 \<or> time a < current_alarm s) \<longrightarrow>
      current_alarm (alarm_insert a s) = current_alarm s \<and>
      trace (alarm_insert a s) = trace s) \<and>
   (0 \<le> i \<and> 0 \<le> g \<and> 0 \<le> t \<longrightarrow>
      (\<exists>s'. main_step True i_ok now (Start_Alarm i g t msg) s = Inr s' \<and>
            last (trace s') = Cond_Broadcast))"
  by (auto simp: alarm_insert_def say_def Let_def)

theorem alarm_insert_signals_start_alarm_broadcasts_witness:
  "(current_alarm init_state = 0 \<or> time coffee < current_alarm init_state) \<and>
   current_alarm (alarm_insert coffee init_state) = time coffee \<and>
   trace (alarm_insert coffee init_state) = trace init_state @ [Cond_Signal] \<and>
   \<not> (current_alarm (init_state\<lparr>current_alarm := 3\<rparr>) = 0
       \<or> time coffee < current_alarm (init_state\<lparr>current_alarm := 3\<rparr>)) \<and>
   current_alarm (alarm_insert coffee (init_state\<lparr>current_alarm := 3\<rparr>)) = 3 \<and>
   trace (alarm_insert coffee (init_state\<lparr>current_alarm := 3\<rparr>)) = [] \<and>
   (0::int) \<le> 2 \<and> (0::int) \<le> 5 \<and>
   (\<exists>s'. main_step True True 0 (Start_Alarm 2 5 5 ''coffee'') init_state = Inr s' \<and>
         last (trace s') = Cond_Broadcast)"
  using alarm_insert_signals_start_alarm_broadcasts [of init_state coffee 2 5 5 True 0 "''coffee''"]
    alarm_insert_signals_start_alarm_broadcasts [of "init_state\<lparr>current_alarm := 3\<rparr>" coffee 2 5 5 True 0 "''coffee''"]
  by (simp add: init_state_def coffee_def)

section \<open>The dispatcher\<close>

text \<open>
  When the earlier alarm arrives through \<open>alarm_insert\<close> and the dispatcher is woken,
  it puts the alarm it was waiting for back and takes the new one next.
\<close>

lemma insert_by_time_front:
  "\<forall>x \<in> set xs. time b \<le> time x \<Longrightarrow> insert_by_time b xs = b # xs"
  by (cases xs) simp_all

lemma requeue_after_alarm_insert:
  assumes "current_alarm s = time a" and "time b < time a"
    and "\<forall>x \<in> set (alarm_list s). time a \<le> time x"
  shows "\<exists>s'. alarm_thread_step (Timed_Wait a) Woken now (alarm_insert b s) = Inr (Loop_Top, s') \<and>
      alarm_list s' = b # insert_by_time a (alarm_list s) \<and>
      Msg_Expired a \<notin> set (trace s') - set (trace s)"
proof -
  have front: "insert_by_time b (alarm_list s) = b # alarm_list s"
    using assms(2,3) by (intro insert_by_time_front) force
  have cur: "current_alarm (alarm_insert b s) = time b"
    using assms(1,2) by (simp add: alarm_insert_def say_def Let_def)
  have "alarm_list (alarm_insert a (alarm_insert b s)) = b # insert_by_time a (alarm_list s)"
    using front assms(2) by (simp add: alarm_list_alarm_insert)
  moreover have "set (trace (alarm_insert a (alarm_insert b s))) \<subseteq> set (trace s) \<union> {Cond_Signal}"
    by (auto simp: alarm_insert_def say_def Let_def)
  ultimately show ?thesis using cur assms(2) by auto
qed

lemma take_after_requeue:
  assumes "alarm_list s' = b # rest"
  shows "alarm_thread_step Loop_Top st now s' =
     Inr (if time b > now then (Timed_Wait b, s'\<lparr>alarm_list := rest, current_alarm := time b\<rparr>)
          else (Loop_Top, say (Msg_Expired b) (s'\<lparr>current_alarm := 0, alarm_list := rest\<rparr>)))"
  using assms by (simp add: take_alarm_def Let_def say_def)



lemma by_time_Cons: "by_time (h # rest) \<longleftrightarrow> (\<forall>x \<in> set rest. time h \<le> time x) \<and> by_time rest"
  by (auto simp: by_time_def)






text \<open>
  A dispatcher that waits for \<open>a\<close> with \<open>current_alarm\<close> still at the time of \<open>a\<close>
  holds the earliest alarm: \<open>a\<close> followed by the list is sorted by time.
\<close>

lemma settled_take_alarm:
  assumes "by_time (alarm_list s)" "\<forall>y \<in> set (alarm_list s). 0 < time y"
  shows "settled (take_alarm now s)"
proof (cases "alarm_list s")
  case Nil
  then show ?thesis using assms by (simp add: take_alarm_def settled_def)
next
  case (Cons h rest)
  with assms have "\<forall>y \<in> set rest. time h \<le> time y" "by_time rest" "0 < time h"
    "\<forall>y \<in> set rest. 0 < time y"
    by (auto simp: by_time_Cons)
  then show ?thesis
    by (auto simp: take_alarm_def settled_def Cons Let_def say_def)
qed

lemma current_alarm_alarm_insert:
  "current_alarm (alarm_insert c s) =
     (if current_alarm s = 0 \<or> time c < current_alarm s then time c else current_alarm s)"
  by (simp add: alarm_insert_def say_def Let_def)

lemma settled_insert:
  assumes "settled (ctl, s)" "0 < time c"
  shows "settled (ctl, alarm_insert c s)"
  using assms unfolding settled_def
  by (simp add: alarm_list_alarm_insert by_time_insert_by_time set_insert_by_time
      current_alarm_alarm_insert) force

lemma settled_step:
  assumes se: "settled cs" and st: "dispatch_step x cs = Inr cs'"
    and pos: "\<And>c. x = Insert c \<Longrightarrow> 0 < time c"
  shows "settled cs'"
proof -
  obtain ctl s where cs: "cs = (ctl, s)" by (cases cs)
  from se cs have srt: "by_time (alarm_list s)" and ps: "\<forall>y \<in> set (alarm_list s). 0 < time y"
    by (simp_all add: settled_def)
  show ?thesis
  proof (cases x)
    case (Insert c)
    with st cs se pos show ?thesis using settled_insert by auto
  next
    case (Wake w now)
    show ?thesis
    proof (cases ctl)
      case Loop_Top
      show ?thesis
      proof (cases "alarm_list s = []")
        case True
        with st cs Wake Loop_Top have "cs' = (Cond_Wait, s\<lparr>current_alarm := 0\<rparr>)"
          by (simp add: Let_def)
        then show ?thesis using srt ps by (simp add: settled_def)
      next
        case False
        with st cs Wake Loop_Top have "cs' = take_alarm now (s\<lparr>current_alarm := 0\<rparr>)"
          by (simp add: Let_def)
        then show ?thesis using settled_take_alarm [of "s\<lparr>current_alarm := 0\<rparr>" now] srt ps
          by simp
      qed
    next
      case Cond_Wait
      show ?thesis
      proof (cases "alarm_list s = []")
        case True
        with st cs Wake Cond_Wait have "cs' = (Cond_Wait, s)" by (simp split: if_splits)
        then show ?thesis using srt ps by (simp add: settled_def)
      next
        case False
        with st cs Wake Cond_Wait have "cs' = take_alarm now s" by (simp split: if_splits)
        then show ?thesis using settled_take_alarm [of s now] srt ps by simp
      qed
    next
      case (Timed_Wait h)
      from se cs Timed_Wait have h: "0 < time h" by (auto simp: settled_def)
      show ?thesis
      proof (cases w)
        case Woken
        show ?thesis
        proof (cases "current_alarm s = time h")
          case True
          with st cs Wake Timed_Wait Woken have "cs' = cs" by simp
          with se show ?thesis by simp
        next
          case False
          with st cs Wake Timed_Wait Woken have "cs' = (Loop_Top, alarm_insert h s)" by simp
          then show ?thesis using srt ps h
            by (simp add: settled_def alarm_list_alarm_insert by_time_insert_by_time
                set_insert_by_time)
        qed
      next
        case Timed_Out
        with st cs Wake Timed_Wait have "cs' = (Loop_Top, say (Msg_Expired h) s)" by simp
        then show ?thesis using srt ps by (simp add: settled_def say_def)
      next
        case Wait_Error
        with st cs Wake Timed_Wait show ?thesis by simp
      qed
    qed
  qed
qed

lemma settled_run:
  "settled cs \<Longrightarrow> dispatch_run xs cs = Inr cs' \<Longrightarrow> \<forall>c. Insert c \<in> set xs \<longrightarrow> 0 < time c \<Longrightarrow>
   settled cs'"
proof (induction xs arbitrary: cs)
  case Nil
  then show ?case by simp
next
  case (Cons x xs)
  from Cons.prems(2) obtain c1 where 1: "dispatch_step x cs = Inr c1"
    and 2: "dispatch_run xs c1 = Inr cs'"
    by (auto split: sum.splits)
  have "settled c1" using settled_step [OF Cons.prems(1) 1] Cons.prems(3) by simp
  from Cons.IH [OF this 2] Cons.prems(3) show ?case by simp
qed

lemma waiting_dispatcher_holds_the_earliest:
  assumes "dispatch_run xs (Loop_Top, init_state) = Inr (Timed_Wait a, s)"
    and "\<forall>c. Insert c \<in> set xs \<longrightarrow> 0 < time c"
    and "current_alarm s = time a"
  shows "by_time (a # alarm_list s)"
proof -
  have "settled (Loop_Top, init_state)"
    by (simp add: settled_def init_state_def by_time_def)
  from settled_run [OF this assms(1,2)] assms(3) show ?thesis
    by (simp add: settled_def by_time_Cons)
qed



section \<open>The removal pass\<close>

lemma removal_visit_frame:
  "display_threads (removal_visit marks k s) = display_threads s"
  "alarm_list (removal_visit marks k s) = alarm_list s"
  "current_alarm (removal_visit marks k s) = current_alarm s"
  "length (active_group_threads (removal_visit marks k s)) = length (active_group_threads s)"
  by (simp_all add: removal_visit_def say_def)

lemma fold_removal_visit_frame:
  "display_threads (fold (removal_visit marks) ks s) = display_threads s \<and>
   alarm_list (fold (removal_visit marks) ks s) = alarm_list s \<and>
   current_alarm (fold (removal_visit marks) ks s) = current_alarm s \<and>
   length (active_group_threads (fold (removal_visit marks) ks s)) = length (active_group_threads s)"
  by (induction ks arbitrary: s) (simp_all add: removal_visit_frame)














section \<open>What the checks of main establish\<close>

text \<open>
  A Start\_Alarm request with a negative number is refused and changes nothing but the
  terminal; hence no alarm on the list of the started program has a negative group.
  Nothing bounds the group from above.
\<close>

lemma start_alarm_negative_is_refused:
  "i < 0 \<or> g < 0 \<or> t < 0 \<Longrightarrow>
   main_step True i_ok now (Start_Alarm i g t msg) s = Inr (say Msg_Invalid_Request s)"
  by auto

lemma main_step_groups:
  assumes "main_step m_ok i_ok now r s = Inr s'" and "\<forall>a \<in> set (alarm_list s). 0 \<le> groupId a"
  shows "\<forall>a \<in> set (alarm_list s'). 0 \<le> groupId a"
  using assms
  by (cases r) (auto simp: ack_def say_def view_alarms_def insert_alarm_def Let_def
        set_insert_by_id split: if_splits)

lemma creation_scan_list: "creation_scan env xs s = Inr s' \<Longrightarrow> alarm_list s' = alarm_list s"
proof (induction xs arbitrary: s)
  case Nil
  then show ?case by simp
next
  case (Cons a xs)
  then show ?case
    by (auto simp: Let_def say_def split: if_splits spawn_result.splits dest!: Cons.IH)
qed

lemma step_groups:
  assumes "step x s = Inr s'" and "\<forall>a \<in> set (alarm_list s). 0 \<le> groupId a"
  shows "\<forall>a \<in> set (alarm_list s'). 0 \<le> groupId a"
proof (cases x)
  case (Main_Request m_ok i_ok now r)
  with assms show ?thesis using main_step_groups by simp
next
  case (Creation_Pass env)
  with assms show ?thesis
    using creation_scan_list [of env "alarm_list s" s s']
    by (simp add: group_display_creation_pass_def)
next
  case Removal_Pass
  with assms obtain marks where "s' = fold (removal_visit marks) [0..<MAX_GROUPS] s"
    by (auto simp: group_display_removal_pass_def split: sum.splits)
  with assms(2) show ?thesis by (simp add: fold_removal_visit_frame)
next
  case (Display_Pass n clk)
  have "groupId ` set (alarm_list (display_alarm_pass g clk s)) = groupId ` set (alarm_list s)" for g
    using groupId_display_scan [of g clk 0 "alarm_list s"]
    by (simp add: display_alarm_pass_def case_prod_beta flip: set_map)
  then have "(\<forall>a \<in> set (alarm_list (display_alarm_pass g clk s)). 0 \<le> groupId a)
      = (\<forall>a \<in> set (alarm_list s). 0 \<le> groupId a)" for g
    by (metis (no_types, lifting) image_iff)
  with Display_Pass assms show ?thesis by (cases "n < length (display_threads s)") auto
qed

lemma run_groups:
  "run xs s = Inr s' \<Longrightarrow> \<forall>a \<in> set (alarm_list s). 0 \<le> groupId a \<Longrightarrow>
   \<forall>a \<in> set (alarm_list s'). 0 \<le> groupId a"
proof (induction xs arbitrary: s)
  case Nil
  then show ?case by simp
next
  case (Cons x xs)
  from Cons.prems(1) obtain s1 where 1: "step x s = Inr s1" and 2: "run xs s1 = Inr s'"
    by (auto split: sum.splits)
  from Cons.IH [OF 2 step_groups [OF 1 Cons.prems(2)]] show ?case .
qed

lemma listed_groups_not_negative:
  "run acts init_state = Inr s \<Longrightarrow> a \<in> set (alarm_list s) \<Longrightarrow> 0 \<le> groupId a"
  using run_groups [of acts init_state s] by (simp add: init_state_def)

end
